theory Spec2Isabelle
  imports Main "HOL-Library.Sublist" "HOL-Library.Multiset" "HOL-Library.Char_ord" "HOL-Library.AList"
    "HOL-Library.List_Lexorder" "HOL-Library.Product_Lexorder"
begin

section \<open>The generator pipeline of generators-template.py\<close>

text \<open>
  The script rebuilds the shell pipeline
  \<^verbatim>\<open>grep ^import | sed 's/import //g' | sort | uniq -c | sort -nr\<close>
  from Python generators. A generator is modelled by the list of the values it yields
  when it is consumed to the end; \<open>grep\<close>, whose body does work before its loop, is
  modelled step by step as well (construction, then one transition per \<open>next\<close>).
  A Python \<open>str\<close> is a \<open>string\<close>, ordered by \<open>HOL-Library.List_Lexorder\<close> over
  \<open>HOL-Library.Char_ord\<close>: character by character, a proper prefix first, as Python
  compares strings. Tuples are ordered by \<open>HOL-Library.Product_Lexorder\<close>: first
  components first, as Python compares tuples. Counts are Python integers, \<open>int\<close>.
  The two stages that read the file system (\<open>expand_wildcard\<close>, \<open>lines_from_paths\<close>)
  are outside the model: the drivers below start from the lines those stages yield.
\<close>

subsection \<open>The regular-expression engine, a parameter\<close>

text \<open>
  Python's \<open>re\<close> module is not part of the script. Every definition that uses it takes
  the engine as two parameters: \<open>re_compile\<close>, which returns the compiled pattern or
  raises \<open>re.error\<close>, and \<open>re_search\<close>, which tells whether a compiled pattern
  matches somewhere in a string (\<open>re.search\<close> called with a compiled pattern does not
  compile again). The theorems hold for every engine.
\<close>

datatype error = PatternError

type_synonym 'p compile = "string \<Rightarrow> error + 'p"
type_synonym 'p search = "'p \<Rightarrow> string \<Rightarrow> bool"

text \<open>The calls a run makes to the engine, in the order it makes them.\<close>

datatype 'p re_call = Compile string | Search 'p string

subsection \<open>grep (lines 41-49)\<close>

text \<open>
  \<^verbatim>\<open>
  def grep(string_list, pattern):
      pattern = re.compile(pattern)
      for line in string_list:
          if re.search(pattern, line):
              yield line
  \<close>
  Since the body contains \<open>yield\<close>, calling \<open>grep\<close> runs none of it: the call binds
  the arguments and returns a generator that has not started (\<open>Created\<close>). The first
  \<open>next\<close> runs line 46 and enters the loop; a generator suspended at line 49 holds the
  compiled pattern (\<open>Suspended\<close>); one that has returned or raised is \<open>Closed\<close>. The
  second component of a generator is what its input \<open>string_list\<close> has still to give.
\<close>

datatype outcome = Yield string | StopIteration | Raise error

datatype 'p grep_frame = Created string | Suspended 'p | Closed

type_synonym 'p grep_gen = "'p grep_frame \<times> string list"

definition grep :: "string list \<Rightarrow> string \<Rightarrow> error + 'p grep_gen" where
  "grep string_list pattern = Inr (Created pattern, string_list)"

text \<open>Lines 47-49: pull lines from the input until one matches, and yield it.\<close>

fun grep_loop :: "'p search \<Rightarrow> 'p \<Rightarrow> string list
    \<Rightarrow> outcome \<times> 'p grep_gen \<times> 'p re_call list" where
  "grep_loop re_search p [] = (StopIteration, (Closed, []), [])"
| "grep_loop re_search p (line # rest) =
     (if re_search p line then (Yield line, (Suspended p, rest), [Search p line])
      else (case grep_loop re_search p rest of
              (out, g, calls) \<Rightarrow> (out, g, Search p line # calls)))"

text \<open>One \<open>next\<close> on the generator: the outcome, the generator after it, the engine calls made.\<close>

fun grep_next :: "'p compile \<Rightarrow> 'p search \<Rightarrow> 'p grep_gen
    \<Rightarrow> outcome \<times> 'p grep_gen \<times> 'p re_call list" where
  "grep_next re_compile re_search (Created pattern, string_list) =
     (case re_compile pattern of
        Inl e \<Rightarrow> (Raise e, (Closed, string_list), [Compile pattern])
      | Inr p \<Rightarrow> (case grep_loop re_search p string_list of
                   (out, g, calls) \<Rightarrow> (out, g, Compile pattern # calls)))"
| "grep_next re_compile re_search (Suspended p, string_list) = grep_loop re_search p string_list"
| "grep_next re_compile re_search (Closed, string_list) = (StopIteration, (Closed, string_list), [])"

text \<open>
  Consuming the generator to the end, as \<open>sorted(lines)\<close> and
  \<open>collections.Counter(lines)\<close> do: the yielded lines or the error raised, and every
  engine call made on the way.
\<close>

function list_of_grep :: "'p compile \<Rightarrow> 'p search \<Rightarrow> 'p grep_gen
    \<Rightarrow> (error + string list) \<times> 'p re_call list" where
  "list_of_grep re_compile re_search g =
     (case grep_next re_compile re_search g of
        (Yield line, g', calls) \<Rightarrow>
          (case list_of_grep re_compile re_search g' of
             (r, calls') \<Rightarrow> (map_sum id (Cons line) r, calls @ calls'))
      | (StopIteration, g', calls) \<Rightarrow> (Inr [], calls)
      | (Raise e, g', calls) \<Rightarrow> (Inl e, calls))"
  by pat_completeness auto
termination
proof (relation "measure (\<lambda>(re_compile, re_search, g). length (snd g))", goal_cases)
  case 1
  show ?case by simp
next
  case (2 re_compile re_search g x1 x2 x1a x2a x1b)
  have loop: "grep_loop rs p xs = (Yield l, g', calls) \<Longrightarrow> length (snd g') < length xs"
    for rs :: "'p search" and p xs l g' calls
    by (induction xs arbitrary: calls) (auto split: if_splits prod.splits)
  from 2 show ?case
    by (cases "(re_compile, re_search, g)" rule: grep_next.cases)
      (auto split: sum.splits prod.splits dest: loop loop [OF sym])
qed

text \<open>\<open>list(grep(string_list, pattern))\<close>.\<close>

definition grep_list :: "'p compile \<Rightarrow> 'p search \<Rightarrow> string list \<Rightarrow> string
    \<Rightarrow> error + string list" where
  "grep_list re_compile re_search string_list pattern =
     (case grep string_list pattern of
        Inl e \<Rightarrow> Inl e
      | Inr g \<Rightarrow> fst (list_of_grep re_compile re_search g))"

subsection \<open>search_and_replace (lines 52-55)\<close>

text \<open>
  \<open>line.replace(old, new)\<close> with no count. For an empty \<open>old\<close> CPython inserts
  \<open>new\<close> before every character and after the last one; otherwise it replaces the
  occurrences of \<open>old\<close> from left to right, searching on after each occurrence.
\<close>

fun replace_interleave :: "string \<Rightarrow> string \<Rightarrow> string" where
  "replace_interleave [] new = new"
| "replace_interleave (c # cs) new = new @ c # replace_interleave cs new"

function replace_occurrences :: "string \<Rightarrow> string \<Rightarrow> string \<Rightarrow> string" where
  "replace_occurrences [] old new = []"
| "replace_occurrences (c # cs) old new =
     (if old \<noteq> [] \<and> prefix old (c # cs)
      then new @ replace_occurrences (drop (length old) (c # cs)) old new
      else c # replace_occurrences cs old new)"
  by pat_completeness auto
termination
  by (relation "measure (\<lambda>(line, old, new). length line)") (auto simp: Suc_diff_le)

definition str_replace :: "string \<Rightarrow> string \<Rightarrow> string \<Rightarrow> string" where
  "str_replace line old new =
     (if old = [] then replace_interleave line new else replace_occurrences line old new)"

fun search_and_replace :: "string list \<Rightarrow> string \<Rightarrow> string \<Rightarrow> string list" where
  "search_and_replace [] search_term new_term = []"
| "search_and_replace (line # strings_list) search_term new_term =
     str_replace line search_term new_term
       # search_and_replace strings_list search_term new_term"

subsection \<open>count_adjacent (lines 57-65)\<close>

text \<open>
  \<open>itertools.groupby\<close> with no key starts a group at the next element and keeps
  pulling elements into it while they are equal to that first one;
  \<open>len(tuple(elements_group))\<close> consumes the group before the next one starts.
\<close>

function count_adjacent :: "'a list \<Rightarrow> (int \<times> 'a) list" where
  "count_adjacent [] = []"
| "count_adjacent (element # rest) =
     (int (length (element # takeWhile (\<lambda>x. x = element) rest)), element)
       # count_adjacent (dropWhile (\<lambda>x. x = element) rest)"
  by pat_completeness auto
termination
  by (relation "measure length") (auto simp: le_imp_less_Suc length_dropWhile_le)

subsection \<open>sorted, collections.Counter\<close>

text \<open>
  \<open>sorted(xs)\<close> is a stable ascending sort. \<open>sorted(xs, reverse=True)\<close> keeps
  stability too: CPython reverses the list, sorts it, and reverses the result.
\<close>

definition sorted_key :: "('a \<Rightarrow> 'k::linorder) \<Rightarrow> 'a list \<Rightarrow> 'a list" where
  "sorted_key key xs = sort_key key xs"

definition sorted_key_reverse :: "('a \<Rightarrow> 'k::linorder) \<Rightarrow> 'a list \<Rightarrow> 'a list" where
  "sorted_key_reverse key xs = rev (sort_key key (rev xs))"

text \<open>
  A \<open>Counter\<close> is a \<open>dict\<close>: an association list in insertion order, where assigning
  to a key that is present keeps its place. \<open>Counter(iterable)\<close> runs
  \<open>self[elem] = self.get(elem, 0) + 1\<close> for every element.
\<close>

definition count_elem :: "('a \<times> int) list \<Rightarrow> 'a \<Rightarrow> ('a \<times> int) list" where
  "count_elem d elem =
     AList.update elem ((case map_of d elem of None \<Rightarrow> 0 | Some c \<Rightarrow> c) + 1) d"

definition Counter :: "'a list \<Rightarrow> ('a \<times> int) list" where
  "Counter iterable = foldl count_elem [] iterable"

text \<open>\<open>most_common()\<close> is \<open>sorted(self.items(), key=itemgetter(1), reverse=True)\<close>.\<close>

definition most_common :: "('a \<times> int) list \<Rightarrow> ('a \<times> int) list" where
  "most_common d = sorted_key_reverse snd d"

subsection \<open>The two drivers (lines 68-87)\<close>

text \<open>
  Each driver is given the engine and the lines that \<open>lines_from_paths\<close> yields, and
  returns the list of \<open>(count, name)\<close> pairs that it prints, one pair a line, or the
  error that ends it. \<open>driver_A_counts\<close> and \<open>driver_B_counts\<close> are the stages after
  \<open>grep\<close>: lines 73-76 and lines 84-87.
\<close>

definition driver_A_counts :: "string list \<Rightarrow> (int \<times> string) list" where
  "driver_A_counts lines =
     sorted_key_reverse id
       (count_adjacent (sorted_key id (search_and_replace lines ''import '' '''')))"

definition driver_A :: "'p compile \<Rightarrow> 'p search \<Rightarrow> string list
    \<Rightarrow> error + (int \<times> string) list" where
  "driver_A re_compile re_search lines =
     (case grep_list re_compile re_search lines ''^import'' of
        Inl e \<Rightarrow> Inl e
      | Inr lines' \<Rightarrow> Inr (driver_A_counts lines'))"

definition driver_B_counts :: "string list \<Rightarrow> (int \<times> string) list" where
  "driver_B_counts lines =
     map (\<lambda>(name, count). (count, name))
       (most_common (Counter (search_and_replace lines ''import '' '''')))"

definition driver_B :: "'p compile \<Rightarrow> 'p search \<Rightarrow> string list
    \<Rightarrow> error + (int \<times> string) list" where
  "driver_B re_compile re_search lines =
     (case grep_list re_compile re_search lines ''^import'' of
        Inl e \<Rightarrow> Inl e
      | Inr lines' \<Rightarrow> Inr (driver_B_counts lines'))"

subsection \<open>An engine for literal patterns\<close>

text \<open>
  The concrete runs below need an engine. This one covers the patterns that are an
  optional leading \<open>^\<close> followed by characters with no special meaning in \<open>re\<close>: such
  a pattern matches a string that contains the text, at its start when the pattern is
  anchored (no \<open>MULTILINE\<close> flag is in use). It rejects every pattern with another
  special character. Python rejects some of those, among them \<open>(\<close>, and accepts others:
  outside literal patterns and \<open>(\<close> this engine is not Python's.
\<close>

datatype literal_re = Literal_re bool string

definition re_special :: "char list" where
  "re_special = ''.^$*+?{}[]|()'' @ [CHR 0x5C]"

definition literal_compile :: "literal_re compile" where
  "literal_compile pattern =
     (let anchored = (case pattern of [] \<Rightarrow> False | c # cs \<Rightarrow> c = CHR ''^'');
          body = (if anchored then tl pattern else pattern)
      in if list_ex (\<lambda>c. c \<in> set re_special) body then Inl PatternError
         else Inr (Literal_re anchored body))"

fun literal_search :: "literal_re search" where
  "literal_search (Literal_re anchored body) line =
     (if anchored then prefix body line else sublist body line)"

subsection \<open>Notions used in the statements\<close>

text \<open>The runs of a run-length encoding, written out again.\<close>

definition expand_runs :: "(int \<times> 'a) list \<Rightarrow> 'a list" where
  "expand_runs ps = concat (map (\<lambda>(count, element). replicate (nat count) element) ps)"

text \<open>The position at which an element is first seen in a list.\<close>

definition first_seen :: "'a list \<Rightarrow> 'a \<Rightarrow> nat" where
  "first_seen xs x = length (takeWhile (\<lambda>y. y \<noteq> x) xs)"

section \<open>Run-length counting\<close>

lemma expand_runs_Cons:
  "expand_runs ((c, e) # ps) = replicate (nat c) e @ expand_runs ps"
  by (simp add: expand_runs_def)

lemma replicate_takeWhile_eq:
  "replicate (length (takeWhile (\<lambda>x. x = e) xs)) e = takeWhile (\<lambda>x. x = e) xs"
  by (rule replicate_length_same) (auto dest: set_takeWhileD)

lemma expand_count_adjacent: "expand_runs (count_adjacent xs) = xs"
proof (induction xs rule: count_adjacent.induct)
  case 1
  show ?case by (simp add: expand_runs_def)
next
  case (2 element rest)
  have "expand_runs (count_adjacent (element # rest))
      = element # takeWhile (\<lambda>x. x = element) rest @ dropWhile (\<lambda>x. x = element) rest"
  proof -
    have n: "nat (1 + int n) = Suc n" for n by simp
    show ?thesis using 2 by (simp add: expand_runs_Cons replicate_takeWhile_eq n)
  qed
  then show ?case by simp
qed

lemma positive_count_adjacent: "list_all (\<lambda>p. 0 < fst p) (count_adjacent xs)"
  by (induction xs rule: count_adjacent.induct) simp_all

lemma snd_count_adjacent: "map snd (count_adjacent xs) = remdups_adj xs"
  by (induction xs rule: count_adjacent.induct) (simp_all add: remdups_adj_Cons')

lemma sum_count_adjacent: "sum_list (map fst (count_adjacent xs)) = int (length xs)"
proof (induction xs rule: count_adjacent.induct)
  case 1
  show ?case by simp
next
  case (2 element rest)
  have "length rest = length (takeWhile (\<lambda>x. x = element) rest) + length (dropWhile (\<lambda>x. x = element) rest)"
    by (metis length_append takeWhile_dropWhile_id)
  with 2 show ?case by simp
qed

lemma group_count_adjacent:
  "(\<Sum>p\<leftarrow>count_adjacent xs. if snd p = x then fst p else 0) = int (count_list xs x)"
proof (induction xs rule: count_adjacent.induct)
  case 1
  show ?case by simp
next
  case (2 element rest)
  have split: "count_list rest x = count_list (takeWhile (\<lambda>y. y = element) rest) x
      + count_list (dropWhile (\<lambda>y. y = element) rest) x"
    by (metis count_list_append takeWhile_dropWhile_id)
  have tw: "count_list (takeWhile (\<lambda>y. y = element) rest) x
      = (if x = element then length (takeWhile (\<lambda>y. y = element) rest) else 0)"
    by (induction rest) auto
  from 2 split tw show ?case by auto
qed

lemma expand_runs_starts:
  assumes "0 < c"
  shows "expand_runs ((c, e) # ps) = e # replicate (nat c - 1) e @ expand_runs ps"
proof -
  from assms obtain n where "nat c = Suc n" by (cases "nat c") auto
  then show ?thesis by (simp add: expand_runs_Cons)
qed

lemma takeWhile_expand_runs:
  assumes "list_all (\<lambda>p. 0 < fst p) ps" and "distinct_adj (map snd ((c, e) # ps))"
  shows "takeWhile (\<lambda>x. x = e) (expand_runs ps) = []"
    and "dropWhile (\<lambda>x. x = e) (expand_runs ps) = expand_runs ps"
proof -
  have "expand_runs ps = [] \<or> hd (expand_runs ps) \<noteq> e"
  proof (cases ps)
    case Nil
    then show ?thesis by (simp add: expand_runs_def)
  next
    case (Cons p qs)
    obtain c' e' where p: "p = (c', e')" by (cases p)
    with assms Cons have "0 < c'" and "e' \<noteq> e" by auto
    then show ?thesis using Cons p by (simp add: expand_runs_starts)
  qed
  then show "takeWhile (\<lambda>x. x = e) (expand_runs ps) = []"
    and "dropWhile (\<lambda>x. x = e) (expand_runs ps) = expand_runs ps"
    by (cases "expand_runs ps"; auto)+
qed

lemma takeWhile_replicate_append:
  "takeWhile (\<lambda>x. x = e) (replicate n e @ ys) = replicate n e @ takeWhile (\<lambda>x. x = e) ys"
  by (induction n) simp_all

lemma dropWhile_replicate_append:
  "dropWhile (\<lambda>x. x = e) (replicate n e @ ys) = dropWhile (\<lambda>x. x = e) ys"
  by (induction n) simp_all

lemma count_adjacent_expand:
  "list_all (\<lambda>p. 0 < fst p) ps \<Longrightarrow> distinct_adj (map snd ps)
    \<Longrightarrow> count_adjacent (expand_runs ps) = ps"
proof (induction ps)
  case Nil
  show ?case by (simp add: expand_runs_def)
next
  case (Cons p ps)
  obtain c e where p: "p = (c, e)" by (cases p)
  from Cons.prems p have c: "0 < c" and pos: "list_all (\<lambda>p. 0 < fst p) ps"
    and adj: "distinct_adj (map snd ((c, e) # ps))" by auto
  from adj have adj': "distinct_adj (map snd ps)" by (auto dest: distinct_adj_ConsD)
  define n where "n = nat c - 1"
  have start: "expand_runs ((c, e) # ps) = e # replicate n e @ expand_runs ps"
    unfolding n_def by (rule expand_runs_starts [OF c])
  have tw: "takeWhile (\<lambda>x. x = e) (replicate n e @ expand_runs ps) = replicate n e"
    by (simp add: takeWhile_replicate_append takeWhile_expand_runs [OF pos adj])
  have dw: "dropWhile (\<lambda>x. x = e) (replicate n e @ expand_runs ps) = expand_runs ps"
    by (simp add: dropWhile_replicate_append takeWhile_expand_runs [OF pos adj])
  from c have "1 + int n = c" by (simp add: n_def)
  then show ?case
    using Cons.IH [OF pos adj'] by (simp add: p start tw dw)
qed

text \<open>
  C1. \<open>count_adjacent\<close> yields one \<open>(count, element)\<close> pair for every maximal run
  of equal consecutive elements, in the order of the runs, each count positive and the
  length of its run: its output is the one list of pairs with positive counts and no two
  neighbours carrying the same element that, written out run by run, gives the input
  back. On \<open>['a','a','a','b','c','c']\<close> it yields \<open>[(3,'a'),(1,'b'),(2,'c')]\<close>.
\<close>

theorem count_adjacent_runs:
  "(ps = count_adjacent xs \<longleftrightarrow>
      expand_runs ps = xs \<and> list_all (\<lambda>p. 0 < fst p) ps \<and> distinct_adj (map snd ps))
   \<and> count_adjacent [''a'', ''a'', ''a'', ''b'', ''c'', ''c'']
       = [(3, ''a''), (1, ''b''), (2, ''c'')]"
proof -
  have "expand_runs (count_adjacent xs) = xs \<and> list_all (\<lambda>p. 0 < fst p) (count_adjacent xs)
      \<and> distinct_adj (map snd (count_adjacent xs))"
    by (simp add: expand_count_adjacent positive_count_adjacent snd_count_adjacent)
  moreover have "ps = count_adjacent xs"
    if "expand_runs ps = xs" "list_all (\<lambda>p. 0 < fst p) ps" "distinct_adj (map snd ps)"
    using count_adjacent_expand [OF that(2,3)] that(1) by simp
  moreover have "count_adjacent [''a'', ''a'', ''a'', ''b'', ''c'', ''c'']
       = [(3, ''a''), (1, ''b''), (2, ''c'')]"
    by simp
  ultimately show ?thesis by blast
qed

text \<open>
  C5. The counts that \<open>count_adjacent\<close> yields for an element add up to the number of
  occurrences of that element in the input, and all the counts add up to the length of
  the input.
\<close>

theorem count_adjacent_sums:
  "(\<Sum>p\<leftarrow>count_adjacent xs. if snd p = x then fst p else 0) = int (count_list xs x)
    \<and> sum_list (map fst (count_adjacent xs)) = int (length xs)"
  by (simp add: group_count_adjacent sum_count_adjacent)



section \<open>The pattern filter\<close>

declare list_of_grep.simps [simp del]

lemma list_of_grep_Suspended_Nil:
  "list_of_grep rc rs (Suspended p, []) = (Inr [], [])"
  by (subst list_of_grep.simps) simp

lemma list_of_grep_Suspended_Cons:
  "list_of_grep rc rs (Suspended p, x # xs) =
     (case list_of_grep rc rs (Suspended p, xs) of
        (r, calls) \<Rightarrow> (if rs p x then map_sum id (Cons x) r else r, Search p x # calls))"
proof (cases "rs p x")
  case True
  then show ?thesis by (subst list_of_grep.simps) (simp split: prod.splits)
next
  case False
  then show ?thesis
    by (subst list_of_grep.simps, subst (2) list_of_grep.simps)
      (simp split: prod.splits outcome.splits)
qed

lemma list_of_grep_Suspended:
  "list_of_grep rc rs (Suspended p, xs) = (Inr (filter (rs p) xs), map (Search p) xs)"
  by (induction xs) (simp_all add: list_of_grep_Suspended_Nil list_of_grep_Suspended_Cons)

lemma list_of_grep_Created:
  "list_of_grep rc rs (Created pattern, xs) =
     (case rc pattern of
        Inl e \<Rightarrow> (Inl e, [Compile pattern])
      | Inr p \<Rightarrow> (Inr (filter (rs p) xs), Compile pattern # map (Search p) xs))"
proof (cases "rc pattern")
  case (Inl e)
  then show ?thesis by (subst list_of_grep.simps) simp
next
  case (Inr p)
  have "list_of_grep rc rs (Created pattern, xs) =
      (case list_of_grep rc rs (Suspended p, xs) of (r, calls) \<Rightarrow> (r, Compile pattern # calls))"
    using Inr by (subst list_of_grep.simps, subst (2) list_of_grep.simps)
      (simp split: prod.splits outcome.splits)
  then show ?thesis using Inr by (simp add: list_of_grep_Suspended)
qed

lemma grep_list_eq:
  "grep_list rc rs xs pattern = map_sum id (\<lambda>p. filter (rs p) xs) (rc pattern)"
  by (simp add: grep_list_def grep_def list_of_grep_Created split: sum.splits)

lemma literal_import: "literal_compile ''^import'' = Inr (Literal_re True ''import'')"
  by (simp add: literal_compile_def re_special_def)

lemma literal_paren: "literal_compile ''('' = Inl PatternError"
  by (simp add: literal_compile_def re_special_def)


text \<open>
  C4, as stated, fails: with the pattern \<open>(\<close>, which does not compile, the call
  \<open>grep(['import os'], '(')\<close> raises nothing; it returns a generator that has not
  started.
\<close>

theorem grep_construction_counterexample:
  "literal_compile ''('' = Inl PatternError
   \<and> (grep [''import os''] ''('' :: error + literal_re grep_gen) \<noteq> Inl PatternError
   \<and> (grep [''import os''] ''('' :: error + literal_re grep_gen)
       = Inr (Created ''('', [''import os''])"
  by (simp add: literal_paren grep_def)

text \<open>
  C4, amended. Constructing the generator never raises and calls the engine not at all.
  The pattern is compiled by the first \<open>next\<close>: when it is invalid, that \<open>next\<close>
  raises the error with the input untouched and no line searched; when it is valid, a run
  to the end compiles once, first, and then searches every line of the input, in order,
  with that one compiled pattern.
\<close>

theorem grep_compiles_on_first_next:
  "(grep string_list pattern :: error + 'p grep_gen) = Inr (Created pattern, string_list)
   \<and> (re_compile pattern = Inl e \<longrightarrow>
        grep_next re_compile re_search (Created pattern, string_list)
          = (Raise e, (Closed, string_list), [Compile pattern])
        \<and> list_of_grep re_compile re_search (Created pattern, string_list)
          = (Inl e, [Compile pattern]))
   \<and> (re_compile pattern = Inr (p :: 'p) \<longrightarrow>
        list_of_grep re_compile re_search (Created pattern, string_list)
          = (Inr (filter (re_search p) string_list),
             Compile pattern # map (Search p) string_list))"
  by (simp add: grep_def list_of_grep_Created)

theorem grep_compiles_on_first_next_witness:
  "literal_compile ''('' = Inl PatternError
   \<and> grep_next literal_compile literal_search (Created ''('', [''import os''])
       = (Raise PatternError, (Closed, [''import os'']), [Compile ''(''])
   \<and> literal_compile ''^import'' = Inr (Literal_re True ''import'')
   \<and> list_of_grep literal_compile literal_search (Created ''^import'', [''import os'', ''x''])
       = (Inr [''import os''],
          [Compile ''^import'', Search (Literal_re True ''import'') ''import os'',
           Search (Literal_re True ''import'') ''x''])"
  using grep_compiles_on_first_next [of "[''import os'']" "''(''" literal_compile PatternError
      literal_search "Literal_re True ''import''"]
    grep_compiles_on_first_next [of "[''import os'', ''x'']" "''^import''" literal_compile
      PatternError literal_search "Literal_re True ''import''"]
  by (simp add: literal_paren literal_import)

text \<open>
  C6. For a pattern that compiles, \<open>grep\<close> yields exactly the input strings that the
  engine's search accepts (a match anywhere in the string, not a match of the whole
  string), and nothing on an empty input; \<open>^import\<close> applied to
  \<open>['import os','from x import y','import sys']\<close> yields
  \<open>['import os','import sys']\<close>.
\<close>

theorem grep_yields_matching:
  "(re_compile pattern = Inr p \<longrightarrow>
      grep_list re_compile re_search string_list pattern
        = Inr (filter (re_search p) string_list)
      \<and> grep_list re_compile re_search [] pattern = Inr [])
   \<and> grep_list literal_compile literal_search
         [''import os'', ''from x import y'', ''import sys''] ''^import''
       = Inr [''import os'', ''import sys'']"
  by (simp add: grep_list_eq literal_import)

theorem grep_yields_matching_witness:
  "literal_compile ''^import'' = Inr (Literal_re True ''import'')
   \<and> grep_list literal_compile literal_search [''import re'', '' import re'', ''imports''] ''^import''
       = Inr [''import re'', ''imports'']
   \<and> grep_list literal_compile literal_search [] ''^import'' = Inr []"
  using grep_yields_matching [of literal_compile "''^import''" "Literal_re True ''import''"
      literal_search "[''import re'', '' import re'', ''imports'']"]
  by (simp add: literal_import)

lemma count_list_filter_le: "count_list (filter P xs) x \<le> count_list xs x"
  by (induction xs) auto

text \<open>
  C10. What \<open>grep\<close> yields is a subsequence of its input: the lines kept stand in
  the order of the input, no line is yielded more often than the input has it, and every
  line yielded is a line of the input.
\<close>

theorem grep_subsequence:
  "grep_list re_compile re_search string_list pattern = Inr out \<Longrightarrow>
     subseq out string_list \<and> set out \<subseteq> set string_list
     \<and> (\<forall>x. count_list out x \<le> count_list string_list x)"
  by (cases "re_compile pattern") (auto simp: grep_list_eq count_list_filter_le)

theorem grep_subsequence_witness:
  "grep_list literal_compile literal_search [''import os'', ''x'', ''import os''] ''^import''
     = Inr [''import os'', ''import os'']
   \<and> subseq [''import os'', ''import os''] [''import os'', ''x'', ''import os'']
   \<and> set [''import os'', ''import os''] \<subseteq> set [''import os'', ''x'', ''import os'']
   \<and> (\<forall>x. count_list [''import os'', ''import os''] x
           \<le> count_list [''import os'', ''x'', ''import os''] x)"
proof -
  have run: "grep_list literal_compile literal_search [''import os'', ''x'', ''import os''] ''^import''
     = Inr [''import os'', ''import os'']"
    by (simp add: grep_list_eq literal_import)
  from grep_subsequence [OF run] run show ?thesis by blast
qed



section \<open>The substring replacer\<close>


lemma replace_interleave_concat:
  "replace_interleave line new = concat (map (\<lambda>c. new @ [c]) line) @ new"
  by (induction line) simp_all

lemma length_replace_interleave:
  "length (replace_interleave line new) = length line + (length line + 1) * length new"
  by (induction line) simp_all

lemma replace_interleave_id: "replace_interleave line new = line \<longleftrightarrow> new = []"
proof
  assume "replace_interleave line new = line"
  then have "length (replace_interleave line new) = length line" by simp
  then show "new = []" by (simp add: length_replace_interleave)
next
  assume "new = []"
  then show "replace_interleave line new = line" by (induction line) simp_all
qed

lemma search_and_replace_map:
  "search_and_replace strings_list search_term new_term
     = map (\<lambda>line. str_replace line search_term new_term) strings_list"
  by (induction strings_list) simp_all

text \<open>
  C3, as stated, fails: with an empty search term and the replacement \<open>X\<close>, the string
  \<open>ab\<close> comes out as \<open>XaXbX\<close>, not unchanged.
\<close>

theorem search_and_replace_empty_counterexample:
  "search_and_replace [''ab''] '''' ''X'' = [''XaXbX'']
   \<and> search_and_replace [''ab''] '''' ''X'' \<noteq> [''ab'']"
  by (simp add: str_replace_def)

text \<open>
  C3, amended. \<open>search_and_replace\<close> is total: it has no failing branch. With an empty
  search term it puts the replacement before every character of each string and after
  the last one, so the strings pass through unchanged exactly when the replacement is
  empty too (or there is no string at all).
\<close>

theorem search_and_replace_empty_search:
  "search_and_replace strings_list [] new_term
     = map (\<lambda>line. concat (map (\<lambda>c. new_term @ [c]) line) @ new_term) strings_list
   \<and> (search_and_replace strings_list [] new_term = strings_list
        \<longleftrightarrow> new_term = [] \<or> strings_list = [])"
proof -
  have eq: "search_and_replace strings_list [] new_term
      = map (\<lambda>line. replace_interleave line new_term) strings_list"
    by (simp add: search_and_replace_map str_replace_def)
  have "map (\<lambda>line. replace_interleave line new_term) strings_list = strings_list
      \<longleftrightarrow> new_term = [] \<or> strings_list = []"
    by (cases strings_list) (auto simp: replace_interleave_id map_idI
        simp flip: replace_interleave_id [of _ new_term])
  with eq show ?thesis by (simp add: replace_interleave_concat)
qed

lemma replace_occurrences_absent:
  "\<not> sublist old line \<Longrightarrow> replace_occurrences line old new = line"
  by (induction line old new rule: replace_occurrences.induct)
    (auto simp: sublist_Cons_right)

lemma str_replace_absent: "\<not> sublist old line \<Longrightarrow> str_replace line old new = line"
  by (cases "old = []") (auto simp: str_replace_def replace_occurrences_absent)


lemma search_and_replace_absent:
  "\<forall>line\<in>set strings_list. \<not> sublist search_term line \<Longrightarrow>
     search_and_replace strings_list search_term new_term = strings_list"
  by (induction strings_list) (simp_all add: str_replace_absent)

text \<open>
  C9. When no string that \<open>search_and_replace\<close> yields contains the search term any
  more, a second application with the same arguments changes nothing; and strings that
  do not contain the search term pass through unchanged. An empty search term occurs in
  every string, so both hypotheses already confine the search term to non-empty ones
  wherever there is a string.
\<close>

theorem search_and_replace_idempotent:
  "((\<forall>line\<in>set (search_and_replace strings_list search_term new_term).
        \<not> sublist search_term line) \<longrightarrow>
      search_and_replace (search_and_replace strings_list search_term new_term)
          search_term new_term
        = search_and_replace strings_list search_term new_term)
   \<and> ((\<forall>line\<in>set strings_list. \<not> sublist search_term line) \<longrightarrow>
      search_and_replace strings_list search_term new_term = strings_list)"
  by (simp add: search_and_replace_absent)

theorem search_and_replace_idempotent_witness:
  "search_and_replace [''import os'', ''sys''] ''import '' '''' = [''os'', ''sys'']
   \<and> \<not> sublist ''import '' ''os'' \<and> \<not> sublist ''import '' ''sys''
   \<and> search_and_replace [''os'', ''sys''] ''import '' '''' = [''os'', ''sys'']"
proof -
  have run: "search_and_replace [''import os'', ''sys''] ''import '' '''' = [''os'', ''sys'']"
    by (simp add: str_replace_def)
  have absent: "\<not> sublist ''import '' ''os''" "\<not> sublist ''import '' ''sys''"
    by (simp_all add: sublist_Cons_right)
  from search_and_replace_idempotent [of "[''import os'', ''sys'']" "''import ''" "''''"]
  have "search_and_replace [''os'', ''sys''] ''import '' '''' = [''os'', ''sys'']"
    unfolding run using absent by simp
  with run absent show ?thesis by simp
qed



section \<open>The two drivers\<close>


lemma Counter_snoc: "Counter (xs @ [x]) = count_elem (Counter xs) x"
  by (simp add: Counter_def)

lemma keys_count_elem:
  "map fst (count_elem d x) = (if x \<in> set (map fst d) then map fst d else map fst d @ [x])"
  by (simp add: count_elem_def update_keys)

lemma map_of_count_elem:
  "map_of (count_elem d x) =
     (map_of d)(x \<mapsto> (case map_of d x of None \<Rightarrow> 0 | Some c \<Rightarrow> c) + 1)"
  by (simp add: count_elem_def update_conv')

lemma set_keys_Counter: "set (map fst (Counter xs)) = set xs"
  by (induction xs rule: rev_induct) (auto simp: Counter_def Counter_snoc keys_count_elem)

lemma distinct_keys_Counter: "distinct (map fst (Counter xs))"
proof (induction xs rule: rev_induct)
  case Nil
  show ?case by (simp add: Counter_def)
next
  case (snoc x xs)
  then show ?case by (simp add: Counter_snoc keys_count_elem)
qed

lemma map_of_Counter:
  "map_of (Counter xs) x = (if x \<in> set xs then Some (int (count_list xs x)) else None)"
proof (induction xs rule: rev_induct)
  case Nil
  show ?case by (simp add: Counter_def)
next
  case (snoc y xs)
  then show ?case by (auto simp: Counter_snoc map_of_count_elem)
qed

lemma Counter_items:
  "Counter xs = map (\<lambda>x. (x, int (count_list xs x))) (map fst (Counter xs))"
proof -
  have "p = (fst p, int (count_list xs (fst p)))" if "p \<in> set (Counter xs)" for p
  proof -
    obtain k v where p: "p = (k, v)" by (cases p)
    with that have "map_of (Counter xs) k = Some v"
      by (simp add: map_of_is_SomeI [OF distinct_keys_Counter])
    with p show ?thesis by (simp add: map_of_Counter split: if_splits)
  qed
  then have "map (\<lambda>p. (fst p, int (count_list xs (fst p)))) (Counter xs) = Counter xs"
    by (intro map_idI) simp
  then show ?thesis by (simp add: comp_def)
qed

lemma first_seen_snoc:
  "first_seen (xs @ [x]) a = (if a \<in> set xs then first_seen xs a else length xs + (if a = x then 0 else 1))"
  by (induction xs) (auto simp: first_seen_def)

lemma first_seen_less: "a \<in> set xs \<Longrightarrow> first_seen xs a < length xs"
  by (induction xs) (auto simp: first_seen_def)

lemma keys_Counter_first_seen:
  "sorted_wrt (\<lambda>a b. first_seen xs a < first_seen xs b) (map fst (Counter xs))"
proof (induction xs rule: rev_induct)
  case Nil
  show ?case by (simp add: Counter_def)
next
  case (snoc x xs)
  have keys: "set (map fst (Counter xs)) = set xs" by (rule set_keys_Counter)
  have keep: "sorted_wrt (\<lambda>a b. first_seen (xs @ [x]) a < first_seen (xs @ [x]) b)
      (map fst (Counter xs))"
  proof (rule sorted_wrt_mono_rel [OF _ snoc])
    fix a b
    assume "a \<in> set (map fst (Counter xs))" "b \<in> set (map fst (Counter xs))"
      and "first_seen xs a < first_seen xs b"
    then show "first_seen (xs @ [x]) a < first_seen (xs @ [x]) b"
      unfolding keys by (simp add: first_seen_snoc)
  qed
  show ?case
  proof (cases "x \<in> set xs")
    case True
    with keep show ?thesis
      unfolding Counter_snoc keys_count_elem keys by simp
  next
    case False
    with keep show ?thesis
      unfolding Counter_snoc keys_count_elem keys
      by (simp add: sorted_wrt_append first_seen_snoc first_seen_less keys [symmetric] del: set_map)
  qed
qed


lemma sorted_distinct_adj: "sorted ys \<Longrightarrow> distinct_adj ys \<Longrightarrow> distinct ys"
proof (induction ys)
  case Nil
  show ?case by simp
next
  case (Cons y zs)
  have "y \<notin> set zs"
  proof
    assume y: "y \<in> set zs"
    then obtain z zs' where zs: "zs = z # zs'" by (cases zs) auto
    with Cons.prems have "y \<le> z" "y \<noteq> z" "\<forall>w\<in>set zs. z \<le> w"
      by (auto simp: distinct_adj_Cons)
    with y show False by auto
  qed
  with Cons show ?case by (auto dest: distinct_adj_ConsD)
qed

lemma distinct_remdups_adj_sorted: "sorted xs \<Longrightarrow> distinct (remdups_adj xs)"
  by (rule sorted_distinct_adj) simp_all

lemma sum_absent:
  "x \<notin> snd ` set ps \<Longrightarrow> (\<Sum>q\<leftarrow>ps. if snd q = x then fst q else 0) = (0 :: int)"
  by (induction ps) auto

lemma sum_single:
  "distinct (map snd ps) \<Longrightarrow> p \<in> set ps \<Longrightarrow>
     (\<Sum>q\<leftarrow>ps. if snd q = snd p then fst q else 0) = (fst p :: int)"
proof (induction ps)
  case Nil
  then show ?case by simp
next
  case (Cons q ps)
  show ?case
  proof (cases "p = q")
    case True
    have "(\<Sum>q\<leftarrow>ps. if snd q = snd p then fst q else 0) = 0"
      using Cons.prems(1) True by (intro sum_absent) simp
    with True show ?thesis by simp
  next
    case False
    with Cons.prems have "p \<in> set ps" "snd q \<noteq> snd p" by (auto simp: image_iff)
    with Cons show ?thesis by simp
  qed
qed

lemma count_adjacent_distinct:
  assumes "distinct (remdups_adj xs)"
  shows "count_adjacent xs = map (\<lambda>e. (int (count_list xs e), e)) (remdups_adj xs)"
proof -
  have d: "distinct (map snd (count_adjacent xs))"
    using assms by (simp add: snd_count_adjacent)
  have "(int (count_list xs (snd p)), snd p) = p" if "p \<in> set (count_adjacent xs)" for p
    using sum_single [OF d that] group_count_adjacent [where xs = xs and x = "snd p"] by (cases p) simp
  then have "map (\<lambda>p. (int (count_list xs (snd p)), snd p)) (count_adjacent xs) = count_adjacent xs"
    by (intro map_idI) simp
  then have "map ((\<lambda>e. (int (count_list xs e), e)) \<circ> snd) (count_adjacent xs) = count_adjacent xs"
    by (simp add: comp_def)
  then show ?thesis
    unfolding map_map [symmetric] snd_count_adjacent by simp
qed

lemma count_list_sort: "count_list (sort xs) e = count_list xs e"
  by (metis count_mset mset_sort)

lemma mset_sorted_key_reverse: "mset (sorted_key_reverse key xs) = mset xs"
  by (simp add: sorted_key_reverse_def)

lemma sorted_key_reverse_sorted:
  "sorted_wrt (\<lambda>p q. key q \<le> key p) (sorted_key_reverse key xs)"
proof -
  have "sorted_wrt (\<lambda>p q. key p \<le> key q) (sort_key key (rev xs))"
    using sorted_sort_key [of key "rev xs"] by (simp add: sorted_wrt_map)
  then show ?thesis by (simp add: sorted_key_reverse_def sorted_wrt_rev)
qed

lemma sorted_key_reverse_stable:
  "filter (\<lambda>p. key p = k) (sorted_key_reverse key xs) = filter (\<lambda>p. key p = k) xs"
  by (simp add: sorted_key_reverse_def rev_filter [symmetric] sort_key_stable)

lemma sorted_wrt_ties:
  "sorted_wrt (\<lambda>p q. key q \<le> key p) out \<Longrightarrow>
   (\<And>k. sorted_wrt R (filter (\<lambda>p. key p = k) out)) \<Longrightarrow>
   sorted_wrt (\<lambda>p q. key q < key p \<or> (key p = key q \<and> R p q)) out"
  for key :: "'a \<Rightarrow> 'k::linorder"
proof (induction out)
  case Nil
  show ?case by simp
next
  case (Cons p ps)
  have tail: "sorted_wrt R (filter (\<lambda>q. key q = k) ps)" for k
    using Cons.prems(2) [of k] by (simp split: if_splits)
  have "key q < key p \<or> (key p = key q \<and> R p q)" if q: "q \<in> set ps" for q
  proof (cases "key q = key p")
    case True
    with Cons.prems(2) [of "key p"] q show ?thesis by simp
  next
    case False
    with Cons.prems(1) q show ?thesis by auto
  qed
  with Cons.IH [OF _ tail] Cons.prems(1) show ?case by simp
qed


lemma sorted_key_id: "sorted_key id xs = sort xs"
  by (simp add: sorted_key_def id_def)

lemma sorted_key_reverse_id: "sorted_key_reverse id xs = rev (sort (rev xs))"
  by (simp add: sorted_key_reverse_def id_def)

lemma driver_A_counts_mset:
  "mset (driver_A_counts lines) =
     image_mset (\<lambda>e. (int (count_list (search_and_replace lines ''import '' '''') e), e))
       (mset_set (set (search_and_replace lines ''import '' '''')))"
proof -
  define names where "names = search_and_replace lines ''import '' ''''"
  have d: "distinct (remdups_adj (sort names))"
    by (rule distinct_remdups_adj_sorted) simp
  have "mset (remdups_adj (sort names)) = mset_set (set names)"
    using mset_set_set [OF d] by simp
  then show ?thesis
    unfolding driver_A_counts_def names_def [symmetric]
    by (simp add: mset_sorted_key_reverse sorted_key_id count_adjacent_distinct [OF d]
        count_list_sort)
qed

lemma driver_B_counts_mset:
  "mset (driver_B_counts lines) =
     image_mset (\<lambda>e. (int (count_list (search_and_replace lines ''import '' '''') e), e))
       (mset_set (set (search_and_replace lines ''import '' '''')))"
proof -
  define names where "names = search_and_replace lines ''import '' ''''"
  have "mset (map fst (Counter names)) = mset_set (set names)"
    using mset_set_set [OF distinct_keys_Counter [of names]] set_keys_Counter [of names]
    by simp
  moreover have "mset (driver_B_counts lines)
      = image_mset (\<lambda>(name, count). (count, name)) (mset (Counter names))"
    by (simp add: driver_B_counts_def most_common_def mset_sorted_key_reverse names_def)
  moreover have "image_mset (\<lambda>(name, count). (count, name)) (mset (Counter names))
      = image_mset (\<lambda>e. (int (count_list names e), e)) (mset (map fst (Counter names)))"
    by (subst Counter_items) (simp add: comp_def image_mset.compositionality)
  ultimately show ?thesis by (simp add: names_def)
qed

lemma driver_A_counts_sorted:
  "sorted_wrt (\<lambda>p q. q < p) (driver_A_counts lines)"
proof -
  define ys where "ys = count_adjacent (sorted_key id (search_and_replace lines ''import '' ''''))"
  have "distinct (map snd ys)"
    by (simp add: ys_def snd_count_adjacent sorted_key_id distinct_remdups_adj_sorted)
  then have "distinct ys" by (simp add: distinct_map)
  then have "sorted_wrt (<) (sort (rev ys))"
    by (simp add: strict_sorted_iff)
  then show ?thesis
    by (simp add: driver_A_counts_def sorted_key_reverse_id sorted_wrt_rev ys_def)
qed

lemma driver_B_counts_sorted:
  "sorted_wrt (\<lambda>p q. fst q < fst p \<or> (fst p = fst q \<and>
       first_seen (search_and_replace lines ''import '' '''') (snd p)
         < first_seen (search_and_replace lines ''import '' '''') (snd q)))
     (driver_B_counts lines)"
proof -
  define names where "names = search_and_replace lines ''import '' ''''"
  define R where "R = (\<lambda>(p :: string \<times> int) (q :: string \<times> int). first_seen names (fst p) < first_seen names (fst q))"
  have "sorted_wrt R (Counter names)"
    using keys_Counter_first_seen [of names] by (simp add: sorted_wrt_map R_def)
  then have "sorted_wrt R (filter (\<lambda>p. snd p = k) (most_common (Counter names)))" for k
    by (simp add: most_common_def sorted_key_reverse_stable sorted_wrt_filter)
  then have "sorted_wrt (\<lambda>p q. snd q < snd p \<or> (snd p = snd q \<and> R p q))
      (most_common (Counter names))"
    by (intro sorted_wrt_ties) (simp_all add: most_common_def sorted_key_reverse_sorted)
  then show ?thesis
    by (simp add: driver_B_counts_def sorted_wrt_map R_def names_def case_prod_beta)
qed

lemma sorted_desc_unique:
  "mset xs = mset ys \<Longrightarrow> sorted_wrt (\<lambda>a b. b \<le> a) xs \<Longrightarrow> sorted_wrt (\<lambda>a b. b \<le> a) ys
    \<Longrightarrow> xs = ys" for xs :: "'a::linorder list"
proof -
  assume m: "mset xs = mset ys" and "sorted_wrt (\<lambda>a b. b \<le> a) xs" "sorted_wrt (\<lambda>a b. b \<le> a) ys"
  then have "sorted (rev xs)" "sorted (rev ys)" by (simp_all add: sorted_wrt_rev)
  moreover from m have "mset (rev xs) = mset (rev ys)" by simp
  ultimately have "rev xs = rev ys"
    by (metis properties_for_sort)
  then show ?thesis by simp
qed

lemma driver_counts_fst: "map fst (driver_A_counts lines) = map fst (driver_B_counts lines)"
proof (rule sorted_desc_unique)
  show "mset (map fst (driver_A_counts lines)) = mset (map fst (driver_B_counts lines))"
    by (simp add: driver_A_counts_mset driver_B_counts_mset)
  have "sorted_wrt (\<lambda>p q. fst q \<le> fst p) (driver_A_counts lines)"
    by (rule sorted_wrt_mono_rel [OF _ driver_A_counts_sorted]) (auto simp: less_prod_def)
  then show "sorted_wrt (\<lambda>a b. b \<le> a) (map fst (driver_A_counts lines))"
    by (simp add: sorted_wrt_map)
  have "sorted_wrt (\<lambda>p q. fst q \<le> fst p) (driver_B_counts lines)"
    by (rule sorted_wrt_mono_rel [OF _ driver_B_counts_sorted]) auto
  then show "sorted_wrt (\<lambda>a b. b \<le> a) (map fst (driver_B_counts lines))"
    by (simp add: sorted_wrt_map)
qed


lemma driver_A_literal_run:
  "driver_A literal_compile literal_search [''import a'', ''import b'']
     = Inr [(1, ''b''), (1, ''a'')]"
  by (simp add: driver_A_def driver_A_counts_def grep_list_eq literal_import str_replace_def
      sorted_key_id sorted_key_reverse_id)

text \<open>
  C2, as stated, fails: on the lines \<open>import a\<close> and \<open>import b\<close> driver A ends
  with \<open>[(1,'b'),(1,'a')]\<close>, the two equal counts in descending order of the element,
  not in ascending order. \<open>reverse=True\<close> reverses the comparison of the whole pair.
\<close>

theorem driver_A_ties_counterexample:
  "driver_A literal_compile literal_search [''import a'', ''import b'']
     = Inr [(1, ''b''), (1, ''a'')]
   \<and> \<not> sorted_wrt (\<lambda>p q. fst q < fst p \<or> (fst p = fst q \<and> snd p \<le> snd q))
         [(1 :: int, ''b''), (1, ''a'')]"
  by (simp add: driver_A_literal_run)

text \<open>
  C2, amended. Whenever the filter stage delivers its lines, driver A returns its list of
  pairs, and that list is sorted by count descending, with equal counts in descending
  order of the element text (as the expected output in the script's docstring shows).
\<close>

theorem driver_A_order:
  "grep_list re_compile re_search lines ''^import'' = Inr lines' \<Longrightarrow>
     driver_A re_compile re_search lines = Inr (driver_A_counts lines')
     \<and> sorted_wrt (\<lambda>p q. fst q < fst p \<or> (fst p = fst q \<and> snd q < snd p))
           (driver_A_counts lines')"
proof -
  assume "grep_list re_compile re_search lines ''^import'' = Inr lines'"
  then have "driver_A re_compile re_search lines = Inr (driver_A_counts lines')"
    by (simp add: driver_A_def)
  moreover have "sorted_wrt (\<lambda>p q. fst q < fst p \<or> (fst p = fst q \<and> snd q < snd p))
      (driver_A_counts lines')"
    by (rule sorted_wrt_mono_rel [OF _ driver_A_counts_sorted]) (auto simp: less_prod_def)
  ultimately show ?thesis by simp
qed

theorem driver_A_order_witness:
  "grep_list literal_compile literal_search [''import a'', ''x'', ''import b'', ''import a'']
       ''^import'' = Inr [''import a'', ''import b'', ''import a'']
   \<and> driver_A literal_compile literal_search [''import a'', ''x'', ''import b'', ''import a'']
       = Inr [(2, ''a''), (1, ''b'')]
   \<and> sorted_wrt (\<lambda>p q. fst q < fst p \<or> (fst p = fst q \<and> snd q < snd p))
         [(2 :: int, ''a''), (1, ''b'')]"
proof -
  have run: "grep_list literal_compile literal_search
      [''import a'', ''x'', ''import b'', ''import a''] ''^import''
        = Inr [''import a'', ''import b'', ''import a'']"
    by (simp add: grep_list_eq literal_import)
  have counts: "driver_A_counts [''import a'', ''import b'', ''import a'']
      = [(2, ''a''), (1, ''b'')]"
    by (simp add: driver_A_counts_def str_replace_def sorted_key_id sorted_key_reverse_id)
  from driver_A_order [OF run] run show ?thesis unfolding counts by simp
qed

text \<open>
  C7. From the same lines the two drivers produce the same multiset of
  \<open>(count, name)\<close> pairs, and the same count at every position, so they differ at most
  in the order of entries with equal count; from the start of the pipeline they either
  both end with the same error or both return such lists.
\<close>

theorem drivers_same_counts:
  "mset (driver_A_counts lines') = mset (driver_B_counts lines')
   \<and> map fst (driver_A_counts lines') = map fst (driver_B_counts lines')
   \<and> map_sum id mset (driver_A re_compile re_search lines)
       = map_sum id mset (driver_B re_compile re_search lines)
   \<and> map_sum id (map fst) (driver_A re_compile re_search lines)
       = map_sum id (map fst) (driver_B re_compile re_search lines)"
  by (simp add: driver_A_counts_mset driver_B_counts_mset driver_counts_fst
      driver_A_def driver_B_def split: sum.splits)

lemma driver_B_literal_run:
  "driver_B literal_compile literal_search [''import b'', ''import c'', ''import a'']
     = Inr [(1, ''b''), (1, ''c''), (1, ''a'')]"
  by (simp add: driver_B_def driver_B_counts_def most_common_def Counter_def count_elem_def
      str_replace_def sorted_key_reverse_def grep_list_eq literal_import)

text \<open>
  C8. Whenever the filter stage delivers its lines, driver B returns its entries sorted
  by count descending, and entries with equal count stand in the order in which their
  elements are first seen in the stream that reaches the tally. That order is not the
  alphabetical one: on \<open>import b\<close>, \<open>import c\<close>, \<open>import a\<close> the entries come out as
  \<open>b\<close>, \<open>c\<close>, \<open>a\<close>. The tally is a Python 3.7+ \<open>dict\<close>, which keeps insertion order.
\<close>

theorem driver_B_order:
  "grep_list re_compile re_search lines ''^import'' = Inr lines' \<Longrightarrow>
   names = search_and_replace lines' ''import '' '''' \<Longrightarrow>
     driver_B re_compile re_search lines = Inr (driver_B_counts lines')
     \<and> sorted_wrt (\<lambda>p q. fst q < fst p \<or> (fst p = fst q \<and>
           first_seen names (snd p) < first_seen names (snd q)))
         (driver_B_counts lines')
     \<and> driver_B literal_compile literal_search [''import b'', ''import c'', ''import a'']
         = Inr [(1, ''b''), (1, ''c''), (1, ''a'')]"
  using driver_B_counts_sorted [of lines'] driver_B_literal_run by (simp add: driver_B_def)

theorem driver_B_order_witness:
  "grep_list literal_compile literal_search [''import b'', ''import a'', ''import c'', ''import a'']
       ''^import'' = Inr [''import b'', ''import a'', ''import c'', ''import a'']
   \<and> driver_B literal_compile literal_search
         [''import b'', ''import a'', ''import c'', ''import a'']
       = Inr [(2, ''a''), (1, ''b''), (1, ''c'')]
   \<and> sorted_wrt (\<lambda>p q. fst q < fst p \<or> (fst p = fst q \<and>
           first_seen [''b'', ''a'', ''c'', ''a''] (snd p)
             < first_seen [''b'', ''a'', ''c'', ''a''] (snd q)))
         [(2 :: int, ''a''), (1, ''b''), (1, ''c'')]"
proof -
  have run: "grep_list literal_compile literal_search
      [''import b'', ''import a'', ''import c'', ''import a''] ''^import''
        = Inr [''import b'', ''import a'', ''import c'', ''import a'']"
    by (simp add: grep_list_eq literal_import)
  have names: "search_and_replace [''import b'', ''import a'', ''import c'', ''import a'']
      ''import '' '''' = [''b'', ''a'', ''c'', ''a'']"
    by (simp add: str_replace_def)
  have counts: "driver_B_counts [''import b'', ''import a'', ''import c'', ''import a'']
      = [(2, ''a''), (1, ''b''), (1, ''c'')]"
    by (simp add: driver_B_counts_def most_common_def Counter_def count_elem_def
        str_replace_def sorted_key_reverse_def)
  from driver_B_order [OF run names [symmetric]] run show ?thesis unfolding counts by simp
qed


end
